theory Spec2Isabelle
  imports Main "HOL-Library.Word"
begin

section \<open>The object store\<close>

text \<open>
  The Go program builds a graph of heap objects: every \<^verbatim>\<open>Blob\<close> value is a pointer to a
  \<^verbatim>\<open>file\<close> or a \<^verbatim>\<open>directory\<close> struct, a directory holds a slice of such pointers and every
  blob holds a pointer back to its parent directory. The embedding keeps this shape: the
  store is the list of all blobs allocated so far, a pointer is an index into it, and the
  \<^verbatim>\<open>nil\<close> directory is \<open>None\<close>. Objects are never freed, so allocation appends to the store.
  A children slice is kept as the list of its elements. The mutexes are left out: the calls
  are run one after another.
\<close>

type_synonym addr = nat

type_synonym byte = "8 word"

record "file" =
  f_parent :: "addr option"
  f_name :: string
  f_content :: "byte list"
  f_size :: int

record directory =
  d_parent :: "addr option"
  d_name :: string
  d_children :: "addr list"

datatype blob = File "file" | Directory directory

type_synonym heap = "blob list"

datatype error =
  NotExist string
  | NilDereference

text \<open>Following a pointer. An address outside the store stands for a nil or invalid pointer.\<close>

definition deref :: "heap \<Rightarrow> addr \<Rightarrow> blob option" where
  "deref h a = (if a < length h then Some (h ! a) else None)"

text \<open>The two methods of the \<^verbatim>\<open>Blob\<close> interface, and the methods of \<^verbatim>\<open>File\<close>.\<close>

fun Parent :: "blob \<Rightarrow> addr option" where
  "Parent (File f) = f_parent f"
| "Parent (Directory d) = d_parent d"

fun Name :: "blob \<Rightarrow> string" where
  "Name (File f) = f_name f"
| "Name (Directory d) = d_name d"

definition Content :: "file \<Rightarrow> byte list" where
  "Content f = f_content f"

definition Size :: "file \<Rightarrow> nat" where
  "Size f = length (f_content f)"

text \<open>The constructors allocate a new object and return its address with the new store.
  \<^verbatim>\<open>NewFile\<close> leaves the \<^verbatim>\<open>size\<close> field at its zero value.\<close>

definition NewFile :: "heap \<Rightarrow> addr option \<Rightarrow> string \<Rightarrow> byte list \<Rightarrow> heap \<times> addr" where
  "NewFile h wd name content =
     (h @ [File \<lparr>f_parent = wd, f_name = name, f_content = content, f_size = 0\<rparr>], length h)"

definition NewDirectory :: "heap \<Rightarrow> addr option \<Rightarrow> string \<Rightarrow> addr list \<Rightarrow> heap \<times> addr" where
  "NewDirectory h wd name children =
     (h @ [Directory \<lparr>d_parent = wd, d_name = name, d_children = children\<rparr>], length h)"

definition NewRoot :: "heap \<Rightarrow> heap \<times> addr" where
  "NewRoot h = (h @ [Directory \<lparr>d_parent = None, d_name = [], d_children = []\<rparr>], length h)"

text \<open>\<^verbatim>\<open>(*directory).Add\<close>: append the child to the receiver's children. Calling it through a
  pointer that is not a directory of the store is a run-time panic.\<close>

definition Add :: "heap \<Rightarrow> addr \<Rightarrow> addr \<Rightarrow> error + heap" where
  "Add h d child =
     (case deref h d of
        Some (Directory r) \<Rightarrow>
          Inr (h[d := Directory (r\<lparr>d_children := d_children r @ [child]\<rparr>)])
      | _ \<Rightarrow> Inl NilDereference)"

section \<open>The filesystem\<close>

record filesystem =
  mem :: heap
  tree :: addr
  wd :: addr

definition NewFilesystem :: filesystem where
  "NewFilesystem = (case NewRoot [] of (h, root) \<Rightarrow> \<lparr>mem = h, tree = root, wd = root\<rparr>)"

text \<open>Every call returns the error (if any) and the state after the call. A panic ends the
  Go process; the model reports it as an error and keeps the state it had.\<close>

definition CreateDirectory :: "filesystem \<Rightarrow> string \<Rightarrow> addr list \<Rightarrow> error option \<times> filesystem" where
  "CreateDirectory s name children =
     (case NewDirectory (mem s) (Some (wd s)) name children of
        (h, dir) \<Rightarrow>
          (case Add h (wd s) dir of
             Inl e \<Rightarrow> (Some e, s)
           | Inr h' \<Rightarrow> (None, s\<lparr>mem := h'\<rparr>)))"

definition CreateFile :: "filesystem \<Rightarrow> string \<Rightarrow> byte list \<Rightarrow> error option \<times> filesystem" where
  "CreateFile s name content =
     (case NewFile (mem s) (Some (wd s)) name content of
        (h, file) \<Rightarrow>
          (case Add h (wd s) file of
             Inl e \<Rightarrow> (Some e, s)
           | Inr h' \<Rightarrow> (None, s\<lparr>mem := h'\<rparr>)))"

subsection \<open>Strings\<close>

text \<open>Go strings are byte sequences, as \<^typ>\<open>string\<close> is. \<^verbatim>\<open>strings.Trim(s, cutset)\<close> removes
  the leading and trailing bytes that occur in the cutset; \<^verbatim>\<open>strings.Split\<close> is used with the
  one-byte separator \<^verbatim>\<open>"/"\<close> only, and yields one more piece than there are separators.\<close>

definition HasPrefix :: "string \<Rightarrow> string \<Rightarrow> bool" where
  "HasPrefix s p = (take (length p) s = p)"

definition Trim :: "string \<Rightarrow> string \<Rightarrow> string" where
  "Trim s cutset =
     rev (dropWhile (\<lambda>c. c \<in> set cutset) (rev (dropWhile (\<lambda>c. c \<in> set cutset) s)))"

fun Split :: "string \<Rightarrow> char \<Rightarrow> string list" where
  "Split [] sep = [[]]"
| "Split (c # cs) sep =
     (if c = sep then [] # Split cs sep
      else (case Split cs sep of
              [] \<Rightarrow> [[c]]
            | w # ws \<Rightarrow> (c # w) # ws))"

subsection \<open>Navigation\<close>

text \<open>The inner loop of \<^verbatim>\<open>ChangeDirectory\<close>: the first child that passes the type assertion
  to \<^verbatim>\<open>Directory\<close> and has the requested name. A nil entry fails the assertion.\<close>

fun find_dir :: "heap \<Rightarrow> addr list \<Rightarrow> string \<Rightarrow> addr option" where
  "find_dir h [] part = None"
| "find_dir h (child # rest) part =
     (case deref h child of
        Some (Directory v) \<Rightarrow> if d_name v = part then Some child else find_dir h rest part
      | _ \<Rightarrow> find_dir h rest part)"

text \<open>The loop over the parts of the path. The traversal pointer has the static type
  \<^verbatim>\<open>Directory\<close>; using it when it does not point to a directory of the store is a panic.\<close>

fun walk :: "heap \<Rightarrow> string \<Rightarrow> addr \<Rightarrow> string list \<Rightarrow> error + addr" where
  "walk h path cur [] = Inr cur"
| "walk h path cur (part # parts) =
     (if part = ''.'' then walk h path cur parts
      else if part = ''..'' then
        (case deref h cur of
           Some (Directory d) \<Rightarrow>
             (case d_parent d of
                Some parent \<Rightarrow> walk h path parent parts
              | None \<Rightarrow> walk h path cur parts)
         | _ \<Rightarrow> Inl NilDereference)
      else
        (case deref h cur of
           Some (Directory d) \<Rightarrow>
             (case find_dir h (d_children d) part of
                Some v \<Rightarrow> walk h path v parts
              | None \<Rightarrow> Inl (NotExist path))
         | _ \<Rightarrow> Inl NilDereference))"

definition ChangeDirectory :: "filesystem \<Rightarrow> string \<Rightarrow> error option \<times> filesystem" where
  "ChangeDirectory s path =
     (if path = ''/'' then (None, s\<lparr>wd := tree s\<rparr>)
      else
        (case walk (mem s) path
                (if HasPrefix path ''/'' then tree s else wd s)
                (Split (Trim path ''/'') (CHR ''/'')) of
           Inl e \<Rightarrow> (Some e, s)
         | Inr d \<Rightarrow> (None, s\<lparr>wd := d\<rparr>)))"

subsection \<open>Printing the working path\<close>

text \<open>The loop of \<^verbatim>\<open>CurrentDirectory\<close>: prepend the name and a slash, move to the parent,
  stop when the parent is nil. Nothing in the loop bounds the number of rounds, so the
  result is optional: \<open>None\<close> is the run that never leaves the loop.\<close>

partial_function (option) CurrentDirectory_loop ::
  "heap \<Rightarrow> addr \<Rightarrow> string \<Rightarrow> (error + string) option" where
  "CurrentDirectory_loop h cur path =
     (case deref h cur of
        None \<Rightarrow> Some (Inl NilDereference)
      | Some b \<Rightarrow>
          (case Parent b of
             None \<Rightarrow> Some (Inr (Name b @ ''/'' @ path))
           | Some parent \<Rightarrow> CurrentDirectory_loop h parent (Name b @ ''/'' @ path)))"

declare CurrentDirectory_loop.simps [code]

text \<open>The result is the line handed to \<^verbatim>\<open>fmt.Println\<close>, with the state after the call.\<close>

definition CurrentDirectory :: "filesystem \<Rightarrow> (error + string) option \<times> filesystem" where
  "CurrentDirectory s = (CurrentDirectory_loop (mem s) (wd s) [], s)"

subsection \<open>Listing\<close>

text \<open>\<^verbatim>\<open>%d\<close> of a non-negative integer.\<close>

fun decimal :: "nat \<Rightarrow> string" where
  "decimal n =
     (if n < 10 then [char_of (48 + n)]
      else decimal (n div 10) @ [char_of (48 + n mod 10)])"

declare decimal.simps [simp del]

text \<open>A row is the three cells written to the tab writer: type, size, name. The closure
  \<^verbatim>\<open>printChilds\<close> recurses into every directory when asked to; the recursion depth is bounded
  by fuel, and \<open>None\<close> is the run that needs more. Calling \<^verbatim>\<open>Name\<close> on a nil entry panics.\<close>

type_synonym row = "string \<times> string \<times> string"

definition then_rows :: "row list \<Rightarrow> (error + row list) option \<Rightarrow> (error + row list) option" where
  "then_rows first later =
     (case later of
        Some (Inr rows) \<Rightarrow> Some (Inr (first @ rows))
      | other \<Rightarrow> other)"

fun printChilds :: "nat \<Rightarrow> heap \<Rightarrow> addr list \<Rightarrow> bool \<Rightarrow> string \<Rightarrow> (error + row list) option" where
  "printChilds fuel h [] recursive prefix = Some (Inr [])"
| "printChilds fuel h (blob # rest) recursive prefix =
     (case deref h blob of
        None \<Rightarrow> Some (Inl NilDereference)
      | Some (File b) \<Rightarrow>
          then_rows
            [(''file'', decimal (Size b div 1024) @ ''kb'',
              if prefix \<noteq> [] then prefix @ ''/'' @ f_name b else f_name b)]
            (printChilds fuel h rest recursive prefix)
      | Some (Directory b) \<Rightarrow>
          (if recursive then
             (case fuel of
                0 \<Rightarrow> None
              | Suc n \<Rightarrow>
                  (case printChilds n h (d_children b) recursive
                          (if prefix \<noteq> [] then prefix @ ''/'' @ d_name b else d_name b) of
                     Some (Inr sub) \<Rightarrow>
                       then_rows
                         ((''dir'', ''-'',
                           if prefix \<noteq> [] then prefix @ ''/'' @ d_name b else d_name b) # sub)
                         (printChilds fuel h rest recursive prefix)
                   | other \<Rightarrow> other))
           else
             then_rows
               [(''dir'', ''-'', if prefix \<noteq> [] then prefix @ ''/'' @ d_name b else d_name b)]
               (printChilds fuel h rest recursive prefix)))"

definition List :: "nat \<Rightarrow> filesystem \<Rightarrow> bool \<Rightarrow> (error + row list) option \<times> filesystem" where
  "List fuel s recursive =
     (case deref (mem s) (wd s) of
        Some (Directory d) \<Rightarrow>
          (then_rows [(''TYPE'', ''SIZE'', ''NAME'')]
             (printChilds fuel (mem s) (d_children d) recursive []), s)
      | _ \<Rightarrow> (Some (Inl NilDereference), s))"

section \<open>Sequences of calls\<close>

datatype call =
  CallCreateFile string "byte list"
  | CallCreateDirectory string "addr list"
  | CallChangeDirectory string
  | CallCurrentDirectory
  | CallList bool

text \<open>The state after one call. A failed call leaves the state as the function returned it;
  the two printing calls return the state they were given.\<close>

fun exec :: "filesystem \<Rightarrow> call \<Rightarrow> filesystem" where
  "exec s (CallCreateFile name content) = snd (CreateFile s name content)"
| "exec s (CallCreateDirectory name children) = snd (CreateDirectory s name children)"
| "exec s (CallChangeDirectory path) = snd (ChangeDirectory s path)"
| "exec s CallCurrentDirectory = snd (CurrentDirectory s)"
| "exec s (CallList recursive) = snd (List (length (mem s)) s recursive)"

definition run :: "call list \<Rightarrow> filesystem" where
  "run calls = foldl exec NewFilesystem calls"

section \<open>Notions used in the statements\<close>

text \<open>The spec's matching condition for a path segment: the child is a Directory and its
  name is the segment.\<close>

definition is_dir_named :: "heap \<Rightarrow> string \<Rightarrow> addr \<Rightarrow> bool" where
  "is_dir_named h part child =
     (case deref h child of
        Some (Directory v) \<Rightarrow> d_name v = part
      | _ \<Rightarrow> False)"

text \<open>The spec's resolution rule, in its own words: the first child, in insertion order, that
  is a Directory with the requested name.\<close>

definition first_matching_child :: "heap \<Rightarrow> addr list \<Rightarrow> string \<Rightarrow> addr option" where
  "first_matching_child h children part = find (is_dir_named h part) children"

definition is_directory :: "heap \<Rightarrow> addr \<Rightarrow> bool" where
  "is_directory h a = (case deref h a of Some (Directory d) \<Rightarrow> True | _ \<Rightarrow> False)"

text \<open>The root as \<^verbatim>\<open>NewRoot\<close> makes it: a directory with no parent and the empty name.\<close>

definition is_root :: "heap \<Rightarrow> addr \<Rightarrow> bool" where
  "is_root h a =
     (case deref h a of
        Some (Directory d) \<Rightarrow> d_parent d = None \<and> d_name d = []
      | _ \<Rightarrow> False)"

text \<open>Following parent links upward, zero or more times.\<close>

inductive parent_path :: "heap \<Rightarrow> addr \<Rightarrow> addr \<Rightarrow> bool" for h :: heap where
  here: "parent_path h a a"
| up: "deref h a = Some b \<Longrightarrow> Parent b = Some p \<Longrightarrow> parent_path h p r \<Longrightarrow> parent_path h a r"

text \<open>The segments of a directory: the names on its parent chain, from just below the root
  down to the directory itself.\<close>

inductive root_chain :: "heap \<Rightarrow> addr \<Rightarrow> string list \<Rightarrow> bool" for h :: heap where
  at_root: "is_root h a \<Longrightarrow> root_chain h a []"
| below:
    "root_chain h p segs \<Longrightarrow> deref h a = Some (Directory d) \<Longrightarrow> d_parent d = Some p
     \<Longrightarrow> root_chain h a (segs @ [d_name d])"

text \<open>A name that a path can spell: not empty, without a slash, and not one of the two
  special segments.\<close>

definition plain :: "string \<Rightarrow> bool" where
  "plain seg = (seg \<noteq> [] \<and> CHR ''/'' \<notin> set seg \<and> seg \<noteq> ''.'' \<and> seg \<noteq> ''..'')"

text \<open>A directory whose path leads back to it: every directory on its parent chain, below
  the root, has a plain name and is the first Directory child of its parent with that name.\<close>

inductive canonical :: "heap \<Rightarrow> addr \<Rightarrow> addr \<Rightarrow> string list \<Rightarrow> bool"
  for h :: heap and root :: addr where
  canonical_root: "canonical h root root []"
| canonical_child:
    "canonical h root p segs \<Longrightarrow> deref h p = Some (Directory dp)
     \<Longrightarrow> deref h a = Some (Directory d) \<Longrightarrow> d_parent d = Some p \<Longrightarrow> plain (d_name d)
     \<Longrightarrow> find_dir h (d_children dp) (d_name d) = Some a
     \<Longrightarrow> canonical h root a (segs @ [d_name d])"

text \<open>The path that the loop of \<^verbatim>\<open>CurrentDirectory\<close> builds from a list of segments.\<close>

definition render :: "string list \<Rightarrow> string" where
  "render segs = CHR ''/'' # concat (map (\<lambda>seg. seg @ ''/'') segs)"

text \<open>The row that the spec gives for one child in a listing without recursion: a File
  shows its size in whole kilobytes, a Directory shows a dash.\<close>

definition listing_row :: "heap \<Rightarrow> addr \<Rightarrow> row" where
  "listing_row h child =
     (case h ! child of
        File f \<Rightarrow> (''file'', decimal (length (f_content f) div 1024) @ ''kb'', f_name f)
      | Directory d \<Rightarrow> (''dir'', ''-'', d_name d))"

text \<open>Every child has its directory as parent.\<close>

definition linked :: "heap \<Rightarrow> bool" where
  "linked h =
     list_all
       (\<lambda>a. case h ! a of
               File f \<Rightarrow> True
             | Directory d \<Rightarrow>
                 list_all
                   (\<lambda>c. case deref h c of Some b \<Rightarrow> Parent b = Some a | None \<Rightarrow> False)
                   (d_children d))
       [0..<length h]"

text \<open>Going down from a directory, at each step into a child Directory with the next name.\<close>

inductive descends :: "heap \<Rightarrow> addr \<Rightarrow> string list \<Rightarrow> addr \<Rightarrow> bool" for h :: heap where
  stay: "descends h a [] a"
| down:
    "deref h a = Some (Directory d) \<Longrightarrow> c \<in> set (d_children d) \<Longrightarrow> is_dir_named h seg c
     \<Longrightarrow> descends h c segs b \<Longrightarrow> descends h a (seg # segs) b"

text \<open>Calls whose name argument is not empty.\<close>

fun named :: "call \<Rightarrow> bool" where
  "named (CallCreateFile name content) = (name \<noteq> [])"
| "named (CallCreateDirectory name children) = (name \<noteq> [])"
| "named c = True"

text \<open>Calls that pass no initial children, as the command dispatcher does.\<close>

fun childless :: "call \<Rightarrow> bool" where
  "childless (CallCreateDirectory name children) = (children = [])"
| "childless c = True"

text \<open>The shape that the calls keep: the root is object 0 and is the tree, the working
  directory is a directory of the store, and every other object has a parent that is a
  directory allocated before it.\<close>

definition sound :: "filesystem \<Rightarrow> bool" where
  "sound s =
     (tree s = 0 \<and> is_root (mem s) 0 \<and> is_directory (mem s) (wd s)
      \<and> list_all
          (\<lambda>a. case Parent (mem s ! a) of
                  None \<Rightarrow> a = 0
                | Some p \<Rightarrow> p < a \<and> is_directory (mem s) p)
          [0..<length (mem s)])"

section \<open>Example states\<close>

text \<open>A file and a directory of the same name under the root, and a directory below.\<close>

definition demo_shadow :: filesystem where
  "demo_shadow =
     run [CallCreateFile ''a'' [], CallCreateDirectory ''a'' [], CallChangeDirectory ''a'',
          CallCreateDirectory ''b'' [], CallChangeDirectory ''/'']"

text \<open>A directory built outside the filesystem, with no parent, handed to
  \<^verbatim>\<open>CreateDirectory\<close> as a child, and then entered.\<close>

definition foreign_child :: filesystem where
  "foreign_child =
     (case NewDirectory (mem NewFilesystem) None ''x'' [] of
        (h, x) \<Rightarrow>
          snd (ChangeDirectory (snd (CreateDirectory (NewFilesystem\<lparr>mem := h\<rparr>) ''a'' [x])) ''a/x''))"

text \<open>Two directories of the same name under the root.\<close>

definition demo_twins :: filesystem where
  "demo_twins = run [CallCreateDirectory ''a'' [], CallCreateDirectory ''a'' []]"

text \<open>A file and a directory created with the empty name.\<close>

definition demo_nameless :: filesystem where
  "demo_nameless = run [CallCreateFile [] [], CallCreateDirectory [] []]"

text \<open>The session of the README, up to the \<^verbatim>\<open>pwd\<close>.\<close>

definition demo_readme :: filesystem where
  "demo_readme =
     run [CallCreateDirectory ''quz'' [], CallChangeDirectory ''quz'',
          CallCreateDirectory ''foo'' [], CallChangeDirectory ''foo'', CallCreateFile ''test'' []]"

section \<open>Navigation leaves the tree alone\<close>

text \<open>
  Claim C1. If \<^verbatim>\<open>ChangeDirectory(path)\<close> returns an error, the working directory after the
  call is the working directory before it (in fact the whole state is the one before).
\<close>

theorem cd_failure_keeps_wd:
  assumes "fst (ChangeDirectory s path) = Some e"
  shows "wd (snd (ChangeDirectory s path)) = wd s \<and> snd (ChangeDirectory s path) = s"
  using assms by (auto simp: ChangeDirectory_def split: if_splits sum.splits)

theorem cd_failure_keeps_wd_witness:
  "fst (ChangeDirectory NewFilesystem ''nonexistent'') = Some (NotExist ''nonexistent'')
   \<and> wd (snd (ChangeDirectory NewFilesystem ''nonexistent'')) = wd NewFilesystem"
proof -
  have h: "fst (ChangeDirectory NewFilesystem ''nonexistent'') = Some (NotExist ''nonexistent'')"
    by code_simp
  show ?thesis using h cd_failure_keeps_wd [OF h] by simp
qed

text \<open>
  Claim C10. \<^verbatim>\<open>ChangeDirectory\<close> never changes the store (so every blob keeps its name, its
  parent link and its children) nor the root pointer, whether it succeeds or fails; only
  \<open>wd\<close> can differ afterwards.
\<close>

theorem cd_frame:
  "mem (snd (ChangeDirectory s path)) = mem s
   \<and> tree (snd (ChangeDirectory s path)) = tree s
   \<and> snd (ChangeDirectory s path) = s\<lparr>wd := wd (snd (ChangeDirectory s path))\<rparr>"
  by (auto simp: ChangeDirectory_def split: sum.splits)

section \<open>Resolving a path segment\<close>

lemma find_dir_spec: "find_dir h cs part = first_matching_child h cs part"
  by (induction cs) (auto simp: first_matching_child_def is_dir_named_def split: option.splits blob.splits)

lemma find_dir_None: "find_dir h cs part = None \<longleftrightarrow> (\<forall>c\<in>set cs. \<not> is_dir_named h part c)"
  by (induction cs) (auto simp: is_dir_named_def split: option.splits blob.splits)

lemma find_dir_Some: "find_dir h cs part = Some v \<Longrightarrow> v \<in> set cs \<and> is_dir_named h part v"
  by (induction cs) (auto simp: is_dir_named_def split: option.splits blob.splits if_splits)

lemma find_dir_first:
  "i < length cs \<Longrightarrow> is_dir_named h part (cs ! i) \<Longrightarrow> \<forall>j<i. \<not> is_dir_named h part (cs ! j)
   \<Longrightarrow> find_dir h cs part = Some (cs ! i)"
proof (induction cs arbitrary: i)
  case Nil
  then show ?case by simp
next
  case (Cons c cs)
  show ?case
  proof (cases i)
    case 0
    with Cons.prems show ?thesis
      by (auto simp: is_dir_named_def split: option.splits blob.splits)
  next
    case (Suc k)
    with Cons.prems have "\<not> is_dir_named h part c" by auto
    moreover have "find_dir h cs part = Some (cs ! k)"
      using Cons.prems Suc by (intro Cons.IH) auto
    ultimately show ?thesis using Suc
      by (auto simp: is_dir_named_def split: option.splits blob.splits)
  qed
qed

lemma walk_append:
  "walk h path cur (pre @ parts) =
     (case walk h path cur pre of Inl e \<Rightarrow> Inl e | Inr mid \<Rightarrow> walk h path mid parts)"
  by (induction pre arbitrary: cur) (auto split: option.splits blob.splits)

lemma cd_unfold:
  "path \<noteq> ''/'' \<Longrightarrow> Split (Trim path ''/'') (CHR ''/'') = pre @ parts
   \<Longrightarrow> walk (mem s) path (if HasPrefix path ''/'' then tree s else wd s) pre = Inr cur
   \<Longrightarrow> ChangeDirectory s path =
       (case walk (mem s) path cur parts of Inl e \<Rightarrow> (Some e, s) | Inr d \<Rightarrow> (None, s\<lparr>wd := d\<rparr>))"
  by (simp add: ChangeDirectory_def walk_append)

lemma demo_shadow_eq:
  "demo_shadow =
     \<lparr>mem = [Directory \<lparr>d_parent = None, d_name = [], d_children = [1, 2]\<rparr>,
             File \<lparr>f_parent = Some 0, f_name = ''a'', f_content = [], f_size = 0\<rparr>,
             Directory \<lparr>d_parent = Some 0, d_name = ''a'', d_children = [3]\<rparr>,
             Directory \<lparr>d_parent = Some 2, d_name = ''b'', d_children = []\<rparr>],
      tree = 0, wd = 0\<rparr>"
  by code_simp

text \<open>
  Claim C2. While \<^verbatim>\<open>ChangeDirectory\<close> works through the parts of a path, a part other than
  \<^verbatim>\<open>.\<close> and \<^verbatim>\<open>..\<close> is looked up among the children of the current traversal directory:
  the scan of the code is the spec's "first child, in insertion order, that is a Directory
  with this name"; when the child at index \<open>i\<close> is the first such child, the traversal goes
  on from it with the remaining parts; a File is never the result of the scan; and when no
  child matches, the call returns the not-found error with the state untouched, whatever
  parts follow.
\<close>

theorem segment_resolution:
  assumes "path \<noteq> ''/''"
    and "Split (Trim path ''/'') (CHR ''/'') = pre @ part # rest"
    and "walk (mem s) path (if HasPrefix path ''/'' then tree s else wd s) pre = Inr cur"
    and "deref (mem s) cur = Some (Directory d)"
    and "part \<noteq> ''.''" and "part \<noteq> ''..''"
  shows "find_dir (mem s) (d_children d) part = first_matching_child (mem s) (d_children d) part
    \<and> (\<forall>i<length (d_children d).
          is_dir_named (mem s) part (d_children d ! i)
          \<and> (\<forall>j<i. \<not> is_dir_named (mem s) part (d_children d ! j))
          \<longrightarrow> is_directory (mem s) (d_children d ! i)
              \<and> ChangeDirectory s path =
                  (case walk (mem s) path (d_children d ! i) rest of
                     Inl e \<Rightarrow> (Some e, s)
                   | Inr v \<Rightarrow> (None, s\<lparr>wd := v\<rparr>)))
    \<and> ((\<forall>c\<in>set (d_children d). \<not> is_dir_named (mem s) part c)
          \<longrightarrow> ChangeDirectory s path = (Some (NotExist path), s))
    \<and> (\<forall>c f. deref (mem s) c = Some (File f) \<longrightarrow> find_dir (mem s) (d_children d) part \<noteq> Some c)"
proof -
  note unfold = cd_unfold [OF assms(1,2,3)]
  have a: "find_dir (mem s) (d_children d) part = first_matching_child (mem s) (d_children d) part"
    by (rule find_dir_spec)
  have b: "is_directory (mem s) (d_children d ! i)
        \<and> ChangeDirectory s path =
             (case walk (mem s) path (d_children d ! i) rest of
                Inl e \<Rightarrow> (Some e, s)
              | Inr v \<Rightarrow> (None, s\<lparr>wd := v\<rparr>))"
    if "i < length (d_children d)" "is_dir_named (mem s) part (d_children d ! i)"
       "\<forall>j<i. \<not> is_dir_named (mem s) part (d_children d ! j)" for i
  proof -
    have "find_dir (mem s) (d_children d) part = Some (d_children d ! i)"
      using that by (rule find_dir_first)
    moreover have "is_directory (mem s) (d_children d ! i)"
      using that(2) by (auto simp: is_dir_named_def is_directory_def split: option.splits blob.splits)
    ultimately show ?thesis using assms(4,5,6) by (simp add: unfold)
  qed
  have c: "ChangeDirectory s path = (Some (NotExist path), s)"
    if "\<forall>c\<in>set (d_children d). \<not> is_dir_named (mem s) part c"
  proof -
    have "find_dir (mem s) (d_children d) part = None"
      using that by (simp add: find_dir_None)
    then show ?thesis using assms(4,5,6) by (simp add: unfold)
  qed
  have d: "find_dir (mem s) (d_children d) part \<noteq> Some c" if "deref (mem s) c = Some (File f)" for c f
    using find_dir_Some [of "mem s" "d_children d" part c] that
    by (auto simp: is_dir_named_def)
  from a b c d show ?thesis by blast
qed


theorem segment_resolution_witness:
  "is_directory (mem demo_shadow) 2
   \<and> \<not> is_dir_named (mem demo_shadow) ''a'' 1
   \<and> ChangeDirectory demo_shadow ''/a/b'' = (None, demo_shadow\<lparr>wd := 3\<rparr>)"
proof -
  let ?d = "\<lparr>d_parent = None, d_name = [], d_children = [1, 2]\<rparr>"
  have h1: "''/a/b'' \<noteq> ''/''" by simp
  have h2: "Split (Trim ''/a/b'' ''/'') (CHR ''/'') = [] @ ''a'' # [''b'']" by code_simp
  have h3: "walk (mem demo_shadow) ''/a/b''
              (if HasPrefix ''/a/b'' ''/'' then tree demo_shadow else wd demo_shadow) [] = Inr 0"
    by (simp add: demo_shadow_eq HasPrefix_def)
  have h4: "deref (mem demo_shadow) 0 = Some (Directory ?d)"
    by (simp add: demo_shadow_eq deref_def)
  have h5: "''a'' \<noteq> ''.''" and h6: "''a'' \<noteq> ''..''" by simp_all
  have first: "is_dir_named (mem demo_shadow) ''a'' (d_children ?d ! 1)
      \<and> (\<forall>j<1. \<not> is_dir_named (mem demo_shadow) ''a'' (d_children ?d ! j))"
    by (simp add: demo_shadow_eq is_dir_named_def deref_def)
  have rest: "walk (mem demo_shadow) ''/a/b'' 2 [''b''] = Inr 3"
    by (simp add: demo_shadow_eq deref_def)
  have len: "1 < length (d_children ?d)" by simp
  have nd: "\<not> is_dir_named (mem demo_shadow) ''a'' 1"
    by (simp add: demo_shadow_eq is_dir_named_def deref_def)
  note step = segment_resolution [OF h1 h2 h3 h4 h5 h6, THEN conjunct2, THEN conjunct1,
      rule_format, OF len first]
  from step rest nd show ?thesis by simp
qed

section \<open>The parent segment\<close>

text \<open>
  Claim C6. A \<^verbatim>\<open>..\<close> part moves the traversal pointer to its parent when it has one and
  leaves it where it is otherwise: the call goes on with the remaining parts from there.
  In particular \<^verbatim>\<open>ChangeDirectory("..")\<close>, called while \<open>wd\<close> is the root (the tree's directory,
  which has no parent), succeeds and leaves \<open>wd\<close> equal to \<open>tree\<close>.
\<close>

theorem parent_segment:
  "(\<forall>pre rest cur d.
       path \<noteq> ''/''
       \<and> Split (Trim path ''/'') (CHR ''/'') = pre @ ''..'' # rest
       \<and> walk (mem s) path (if HasPrefix path ''/'' then tree s else wd s) pre = Inr cur
       \<and> deref (mem s) cur = Some (Directory d)
       \<longrightarrow> ChangeDirectory s path =
             (case walk (mem s) path (case d_parent d of Some parent \<Rightarrow> parent | None \<Rightarrow> cur) rest of
                Inl e \<Rightarrow> (Some e, s)
              | Inr v \<Rightarrow> (None, s\<lparr>wd := v\<rparr>)))
   \<and> (wd s = tree s \<and> is_directory (mem s) (tree s) \<and> (\<forall>b. deref (mem s) (tree s) = Some b \<longrightarrow> Parent b = None)
        \<longrightarrow> ChangeDirectory s ''..'' = (None, s) \<and> wd (snd (ChangeDirectory s ''..'')) = tree s)"
proof (intro conjI allI impI)
  fix pre rest cur d
  assume a: "path \<noteq> ''/''
       \<and> Split (Trim path ''/'') (CHR ''/'') = pre @ ''..'' # rest
       \<and> walk (mem s) path (if HasPrefix path ''/'' then tree s else wd s) pre = Inr cur
       \<and> deref (mem s) cur = Some (Directory d)"
  then have "ChangeDirectory s path =
       (case walk (mem s) path cur (''..'' # rest) of Inl e \<Rightarrow> (Some e, s) | Inr d \<Rightarrow> (None, s\<lparr>wd := d\<rparr>))"
    by (intro cd_unfold) auto
  with a show "ChangeDirectory s path =
             (case walk (mem s) path (case d_parent d of Some parent \<Rightarrow> parent | None \<Rightarrow> cur) rest of
                Inl e \<Rightarrow> (Some e, s)
              | Inr v \<Rightarrow> (None, s\<lparr>wd := v\<rparr>))"
    by (simp split: option.splits)
next
  assume r: "wd s = tree s \<and> is_directory (mem s) (tree s) \<and> (\<forall>b. deref (mem s) (tree s) = Some b \<longrightarrow> Parent b = None)"
  have sp: "Split (Trim ''..'' ''/'') (CHR ''/'') = [''..'']" by code_simp
  from r show "ChangeDirectory s ''..'' = (None, s)"
    by (auto simp: ChangeDirectory_def sp HasPrefix_def is_directory_def split: option.splits blob.splits)
  then show "wd (snd (ChangeDirectory s ''..'')) = tree s" using r by simp
qed

theorem parent_segment_witness:
  "ChangeDirectory NewFilesystem ''..'' = (None, NewFilesystem)
   \<and> ChangeDirectory (demo_shadow\<lparr>wd := 3\<rparr>) ''../..'' = (None, demo_shadow\<lparr>wd := 0\<rparr>)"
proof -
  let ?s = "demo_shadow\<lparr>wd := 3\<rparr>"
  let ?d = "\<lparr>d_parent = Some 2, d_name = ''b'', d_children = []\<rparr>"
  have root: "wd NewFilesystem = tree NewFilesystem \<and> is_directory (mem NewFilesystem) (tree NewFilesystem)
      \<and> (\<forall>b. deref (mem NewFilesystem) (tree NewFilesystem) = Some b \<longrightarrow> Parent b = None)"
    by (simp add: NewFilesystem_def NewRoot_def is_directory_def deref_def)
  have seg: "''../..'' \<noteq> ''/''
       \<and> Split (Trim ''../..'' ''/'') (CHR ''/'') = [] @ ''..'' # [''..'']
       \<and> walk (mem ?s) ''../..'' (if HasPrefix ''../..'' ''/'' then tree ?s else wd ?s) [] = Inr 3
       \<and> deref (mem ?s) 3 = Some (Directory ?d)"
    by (simp add: demo_shadow_eq HasPrefix_def deref_def Trim_def)
  have rest: "walk (mem ?s) ''../..'' 2 [''..''] = Inr 0"
    by (simp add: demo_shadow_eq deref_def)
  note a = parent_segment [of "''../..''" ?s, THEN conjunct1, rule_format, OF seg]
  note b = parent_segment [of _ NewFilesystem, THEN conjunct2, rule_format, OF root, THEN conjunct1]
  from a b rest show ?thesis by simp
qed

section \<open>Listing a new file\<close>

lemma then_rows_Inr [simp]: "then_rows first (Some (Inr rows)) = Some (Inr (first @ rows))"
  by (simp add: then_rows_def)

lemma printChilds_flat:
  "\<forall>c\<in>set cs. c < length h \<Longrightarrow>
     printChilds fuel h cs False [] = Some (Inr (map (listing_row h) cs))"
proof (induction cs)
  case Nil
  show ?case by simp
next
  case (Cons c cs)
  then have "printChilds fuel h cs False [] = Some (Inr (map (listing_row h) cs))" by simp
  moreover from Cons.prems have "deref h c = Some (h ! c)" by (simp add: deref_def)
  ultimately show ?case by (cases "h ! c") (auto simp: listing_row_def Size_def)
qed

lemma decimal_0: "decimal 0 = ''0''"
  by code_simp

lemma CreateFile_mem:
  assumes "deref (mem s) (wd s) = Some (Directory d)"
  shows "CreateFile s name content =
     (None, s\<lparr>mem := (mem s @ [File \<lparr>f_parent = Some (wd s), f_name = name, f_content = content, f_size = 0\<rparr>])
                  [wd s := Directory (d\<lparr>d_children := d_children d @ [length (mem s)]\<rparr>)]\<rparr>)"
  using assms
  by (auto simp: CreateFile_def NewFile_def Add_def deref_def nth_append split: if_splits)

lemma listing_after_create:
  assumes "deref (mem s) (wd s) = Some (Directory d)"
    and "\<forall>child\<in>set (d_children d). child < length (mem s)"
  shows "fst (CreateFile s n c) = None
    \<and> fst (List fuel (snd (CreateFile s n c)) False) =
        Some (Inr ((''TYPE'', ''SIZE'', ''NAME'')
                    # map (listing_row (mem (snd (CreateFile s n c)))) (d_children d)
                    @ [(''file'', decimal (length c div 1024) @ ''kb'', n)]))
    \<and> (length c < 1024 \<longrightarrow> decimal (length c div 1024) @ ''kb'' = ''0kb'')"
proof -
  let ?f = "File \<lparr>f_parent = Some (wd s), f_name = n, f_content = c, f_size = 0\<rparr>"
  let ?d' = "d\<lparr>d_children := d_children d @ [length (mem s)]\<rparr>"
  let ?h' = "(mem s @ [?f])[wd s := Directory ?d']"
  have cf: "CreateFile s n c = (None, s\<lparr>mem := ?h'\<rparr>)"
    using assms(1) by (rule CreateFile_mem)
  have w: "wd s < length (mem s)"
    using assms(1) by (simp add: deref_def split: if_splits)
  have dw: "deref ?h' (wd s) = Some (Directory ?d')"
    using w by (simp add: deref_def)
  have valid: "\<forall>child\<in>set (d_children ?d'). child < length ?h'"
    using assms(2) by auto
  have new: "listing_row ?h' (length (mem s)) = (''file'', decimal (length c div 1024) @ ''kb'', n)"
    using w by (simp add: listing_row_def)
  have "fst (List fuel (s\<lparr>mem := ?h'\<rparr>) False) =
      Some (Inr ((''TYPE'', ''SIZE'', ''NAME'') # map (listing_row ?h') (d_children ?d')))"
    using dw printChilds_flat [OF valid, of fuel] by (simp add: List_def)
  then have "fst (List fuel (snd (CreateFile s n c)) False) =
        Some (Inr ((''TYPE'', ''SIZE'', ''NAME'')
                    # map (listing_row (mem (snd (CreateFile s n c)))) (d_children d)
                    @ [(''file'', decimal (length c div 1024) @ ''kb'', n)]))"
    by (simp add: cf new)
  moreover have "length c < 1024 \<longrightarrow> decimal (length c div 1024) @ ''kb'' = ''0kb''"
    by (simp add: decimal_0)
  ultimately show ?thesis by (simp add: cf)
qed

section \<open>Names along the parent chain\<close>

lemma render_snoc: "render (segs @ [seg]) @ acc = render segs @ seg @ ''/'' @ acc"
  by (simp add: render_def)

lemma loop_root_chain:
  "root_chain h a segs \<Longrightarrow> CurrentDirectory_loop h a acc = Some (Inr (render segs @ acc))"
proof (induction arbitrary: acc rule: root_chain.induct)
  case (at_root a)
  then show ?case
    by (subst CurrentDirectory_loop.simps)
       (auto simp: is_root_def render_def split: option.splits blob.splits)
next
  case (below p segs a d)
  have "CurrentDirectory_loop h a acc = CurrentDirectory_loop h p (d_name d @ ''/'' @ acc)"
    using below.hyps by (subst CurrentDirectory_loop.simps) simp
  also have "\<dots> = Some (Inr (render segs @ d_name d @ ''/'' @ acc))"
    by (rule below.IH)
  finally show ?case by (simp only: render_snoc)
qed

lemma linked_child:
  assumes "linked h" "deref h a = Some (Directory d)" "c \<in> set (d_children d)"
  shows "\<exists>b. deref h c = Some b \<and> Parent b = Some a"
proof -
  from assms(2) have a: "a < length h" "h ! a = Directory d"
    by (auto simp: deref_def split: if_splits)
  from assms(1) a(1) have "case h ! a of File f \<Rightarrow> True
      | Directory d \<Rightarrow>
          list_all (\<lambda>c. case deref h c of Some b \<Rightarrow> Parent b = Some a | None \<Rightarrow> False)
            (d_children d)"
    by (simp add: linked_def list_all_iff)
  with a(2) assms(3) show ?thesis
    by (auto simp: list_all_iff split: option.splits)
qed

lemma descends_root_chain:
  "descends h a segs b \<Longrightarrow> linked h \<Longrightarrow> root_chain h a pre \<Longrightarrow> root_chain h b (pre @ segs)"
proof (induction arbitrary: pre rule: descends.induct)
  case (stay a)
  then show ?case by simp
next
  case (down a d c seg segs b)
  from down.hyps(3) obtain dc where dc: "deref h c = Some (Directory dc)" "d_name dc = seg"
    by (auto simp: is_dir_named_def split: option.splits blob.splits)
  from linked_child [OF down.prems(1) down.hyps(1,2)] dc have "d_parent dc = Some a"
    by auto
  with down.prems(2) dc have "root_chain h c (pre @ [seg])"
    by (auto intro: root_chain.below)
  from down.IH [OF down.prems(1) this] show ?case by simp
qed

section \<open>What every sequence of calls keeps\<close>

lemma sound_iff:
  "sound s \<longleftrightarrow>
     tree s = 0 \<and> is_root (mem s) 0 \<and> is_directory (mem s) (wd s)
     \<and> (\<forall>a<length (mem s).
           (Parent (mem s ! a) = None \<longrightarrow> a = 0)
           \<and> (\<forall>p. Parent (mem s ! a) = Some p \<longrightarrow> p < a \<and> is_directory (mem s) p))"
  by (auto simp: sound_def list_all_iff split: option.splits)

lemma CreateDirectory_mem:
  assumes "deref (mem s) (wd s) = Some (Directory d)"
  shows "CreateDirectory s name children =
     (None, s\<lparr>mem := (mem s @ [Directory \<lparr>d_parent = Some (wd s), d_name = name, d_children = children\<rparr>])
                  [wd s := Directory (d\<lparr>d_children := d_children d @ [length (mem s)]\<rparr>)]\<rparr>)"
  using assms
  by (auto simp: CreateDirectory_def NewDirectory_def Add_def deref_def nth_append split: if_splits)

text \<open>The store after a creation call: one object more, and the working directory has one
  child more. The old objects keep their kind, parent and name.\<close>

lemma grown_nth:
  assumes "w < length h" "h ! w = Directory d" "a < length h"
  shows "Parent (((h @ [new])[w := Directory (d\<lparr>d_children := cs\<rparr>)]) ! a) = Parent (h ! a)"
    and "Name (((h @ [new])[w := Directory (d\<lparr>d_children := cs\<rparr>)]) ! a) = Name (h ! a)"
    and "is_directory ((h @ [new])[w := Directory (d\<lparr>d_children := cs\<rparr>)]) a = is_directory h a"
  using assms by (auto simp: nth_list_update nth_append is_directory_def deref_def)

lemma grown_new:
  assumes "w < length h"
  shows "((h @ [new])[w := x]) ! length h = new"
  using assms by (simp add: nth_list_update)

lemma grown_is_root:
  assumes "w < length h" "h ! w = Directory d" "is_root h a"
  shows "is_root ((h @ [new])[w := Directory (d\<lparr>d_children := cs\<rparr>)]) a"
  using assms by (auto simp: is_root_def deref_def nth_list_update nth_append split: if_splits blob.splits)

lemma sound_grow:
  assumes "sound s" "deref (mem s) (wd s) = Some (Directory d)" "Parent new = Some (wd s)"
  shows "sound (s\<lparr>mem := (mem s @ [new])[wd s := Directory (d\<lparr>d_children := cs\<rparr>)]\<rparr>)"
proof -
  let ?h = "mem s" and ?h' = "(mem s @ [new])[wd s := Directory (d\<lparr>d_children := cs\<rparr>)]"
  from assms(2) have w: "wd s < length ?h" "?h ! wd s = Directory d"
    by (auto simp: deref_def split: if_splits)
  note g = grown_nth [OF w, of _ new cs]
  from assms(1) have s: "tree s = 0" "is_root ?h 0" "is_directory ?h (wd s)"
    and par: "\<And>a. a < length ?h \<Longrightarrow> (Parent (?h ! a) = None \<longrightarrow> a = 0)
           \<and> (\<forall>p. Parent (?h ! a) = Some p \<longrightarrow> p < a \<and> is_directory ?h p)"
    by (auto simp: sound_iff)
  have "(Parent (?h' ! a) = None \<longrightarrow> a = 0)
      \<and> (\<forall>p. Parent (?h' ! a) = Some p \<longrightarrow> p < a \<and> is_directory ?h' p)"
    if "a < length ?h'" for a
  proof (cases "a < length ?h")
    case True
    with par [OF True] show ?thesis
      by (auto simp: g)
  next
    case False
    with that have "a = length ?h" by simp
    then show ?thesis using w s(3) assms(3) by (simp add: grown_new g)
  qed
  moreover have "is_root ?h' 0" using w s(2) by (rule grown_is_root)
  moreover have "is_directory ?h' (wd s)" using w s(3) by (simp add: g)
  ultimately show ?thesis using s(1) by (simp add: sound_iff)
qed

lemma sound_CreateFile: "sound s \<Longrightarrow> sound (snd (CreateFile s name content))"
proof -
  assume a: "sound s"
  then obtain d where d: "deref (mem s) (wd s) = Some (Directory d)"
    by (auto simp: sound_iff is_directory_def split: option.splits blob.splits)
  show ?thesis
    using sound_grow [OF a d] by (simp add: CreateFile_mem [OF d])
qed

lemma sound_CreateDirectory: "sound s \<Longrightarrow> sound (snd (CreateDirectory s name children))"
proof -
  assume a: "sound s"
  then obtain d where d: "deref (mem s) (wd s) = Some (Directory d)"
    by (auto simp: sound_iff is_directory_def split: option.splits blob.splits)
  show ?thesis
    using sound_grow [OF a d] by (simp add: CreateDirectory_mem [OF d])
qed

lemma find_dir_is_directory: "find_dir h cs part = Some v \<Longrightarrow> is_directory h v"
  using find_dir_Some [of h cs part v]
  by (auto simp: is_dir_named_def is_directory_def split: option.splits blob.splits)

lemma walk_is_directory:
  assumes "\<And>a p. a < length h \<Longrightarrow> Parent (h ! a) = Some p \<Longrightarrow> is_directory h p"
  shows "is_directory h cur \<Longrightarrow> walk h path cur parts = Inr v \<Longrightarrow> is_directory h v"
proof (induction parts arbitrary: cur)
  case Nil
  then show ?case by simp
next
  case (Cons part parts)
  from Cons.prems(1) obtain d where d: "deref h cur = Some (Directory d)"
    by (auto simp: is_directory_def split: option.splits blob.splits)
  then have c: "cur < length h" "h ! cur = Directory d"
    by (auto simp: deref_def split: if_splits)
  show ?case
  proof (cases "part = ''.''")
    case True
    with Cons show ?thesis by simp
  next
    case notdot: False
    show ?thesis
    proof (cases "part = ''..''")
      case True
      show ?thesis
      proof (cases "d_parent d")
        case None
        with True d Cons show ?thesis by simp
      next
        case (Some p)
        with assms [OF c(1), of p] c(2) have "is_directory h p" by simp
        with True d Some Cons show ?thesis by simp
      qed
    next
      case False
      with notdot d Cons.prems(2) obtain w where
        w: "find_dir h (d_children d) part = Some w" "walk h path w parts = Inr v"
        by (auto split: option.splits)
      from Cons.IH [OF find_dir_is_directory [OF w(1)] w(2)] show ?thesis .
    qed
  qed
qed

lemma sound_ChangeDirectory: "sound s \<Longrightarrow> sound (snd (ChangeDirectory s path))"
proof -
  assume a: "sound s"
  then have par: "\<And>a p. a < length (mem s) \<Longrightarrow> Parent (mem s ! a) = Some p
           \<Longrightarrow> is_directory (mem s) p"
    and t: "tree s = 0" "is_root (mem s) 0" and w: "is_directory (mem s) (wd s)"
    by (auto simp: sound_iff)
  from t have td: "is_directory (mem s) (tree s)"
    by (auto simp: is_root_def is_directory_def split: option.splits blob.splits)
  show ?thesis
  proof (cases "path = ''/''")
    case True
    with a td show ?thesis by (simp add: ChangeDirectory_def sound_iff)
  next
    case False
    let ?start = "if HasPrefix path ''/'' then tree s else wd s"
    have st: "is_directory (mem s) ?start" using td w by simp
    show ?thesis
    proof (cases "walk (mem s) path ?start (Split (Trim path ''/'') (CHR ''/''))")
      case (Inl e)
      with False a show ?thesis by (simp add: ChangeDirectory_def)
    next
      case (Inr v)
      from walk_is_directory [OF par st Inr] have "is_directory (mem s) v" .
      with False a Inr show ?thesis by (simp add: ChangeDirectory_def sound_iff)
    qed
  qed
qed

lemma sound_exec: "sound s \<Longrightarrow> sound (exec s c)"
  by (cases c)
     (simp_all add: sound_CreateFile sound_CreateDirectory sound_ChangeDirectory
        CurrentDirectory_def List_def split: option.splits blob.splits)

lemma sound_NewFilesystem: "sound NewFilesystem"
  by (simp add: sound_def NewFilesystem_def NewRoot_def is_root_def is_directory_def deref_def)

lemma run_snoc: "run (calls @ [c]) = exec (run calls) c"
  by (simp add: run_def)

lemma sound_run: "sound (run calls)"
proof (induction calls rule: rev_induct)
  case Nil
  show ?case by (simp add: run_def sound_NewFilesystem)
next
  case (snoc c calls)
  then show ?case by (simp add: run_snoc sound_exec)
qed

lemma sound_parent_path:
  assumes "sound s"
  shows "a < length (mem s) \<Longrightarrow> parent_path (mem s) a (tree s)"
proof (induction a rule: less_induct)
  case (less a)
  from assms less.prems have c: "Parent (mem s ! a) = None \<longrightarrow> a = 0"
      "\<forall>p. Parent (mem s ! a) = Some p \<longrightarrow> p < a"
    and t: "tree s = 0"
    by (auto simp: sound_iff)
  show ?case
  proof (cases "Parent (mem s ! a)")
    case None
    with c t show ?thesis by (auto intro: parent_path.here)
  next
    case (Some p)
    with c have p: "p < a" by simp
    from less.IH [OF p] p less.prems have "parent_path (mem s) p (tree s)" by simp
    moreover have "deref (mem s) a = Some (mem s ! a)" using less.prems by (simp add: deref_def)
    ultimately show ?thesis using Some by (auto intro: parent_path.up)
  qed
qed

text \<open>
  Claim C4, as amended. In every state reached from \<^verbatim>\<open>NewFilesystem\<close> by a sequence of
  \<^verbatim>\<open>CreateFile\<close>, \<^verbatim>\<open>CreateDirectory\<close>, \<^verbatim>\<open>ChangeDirectory\<close>, \<^verbatim>\<open>CurrentDirectory\<close> and \<^verbatim>\<open>List\<close>
  calls in which every child passed to \<^verbatim>\<open>CreateDirectory\<close> is a blob that the filesystem
  itself created before (the command dispatcher passes none), \<open>wd\<close> refers to a Directory,
  never to a File, and the parent links lead from it up to \<open>tree\<close>. Names, paths, payloads
  and the order of the calls are arbitrary.
\<close>

theorem wd_invariant:
  "is_directory (mem (run calls)) (wd (run calls))
   \<and> parent_path (mem (run calls)) (wd (run calls)) (tree (run calls))"
proof -
  have s: "sound (run calls)" by (rule sound_run)
  then have d: "is_directory (mem (run calls)) (wd (run calls))" by (simp add: sound_iff)
  then have "wd (run calls) < length (mem (run calls))"
    by (auto simp: is_directory_def deref_def split: if_splits)
  from sound_parent_path [OF s this] d show ?thesis by simp
qed

theorem wd_invariant_witness:
  "is_directory (mem demo_shadow) (wd demo_shadow)
   \<and> parent_path (mem demo_shadow) (wd demo_shadow) (tree demo_shadow)"
  using wd_invariant [of "[CallCreateFile ''a'' [], CallCreateDirectory ''a'' [],
      CallChangeDirectory ''a'', CallCreateDirectory ''b'' [], CallChangeDirectory ''/'']"]
  by (simp add: demo_shadow_def)

text \<open>
  The claim as it is stated covers every \<^verbatim>\<open>CreateDirectory\<close> call, and \<^verbatim>\<open>NewDirectory\<close> stores
  the child list as it is given, without setting the parent of a child. A directory built
  by \<^verbatim>\<open>NewDirectory\<close> with a nil parent and passed as a child keeps its nil parent inside the
  tree: after \<^verbatim>\<open>CreateDirectory("a", [x])\<close> and \<^verbatim>\<open>ChangeDirectory("a/x")\<close> the working directory
  is this child, a directory from which no parent link leads to the root.
\<close>

lemma foreign_child_eq:
  "foreign_child =
     \<lparr>mem = [Directory \<lparr>d_parent = None, d_name = [], d_children = [2]\<rparr>,
             Directory \<lparr>d_parent = None, d_name = ''x'', d_children = []\<rparr>,
             Directory \<lparr>d_parent = Some 0, d_name = ''a'', d_children = [1]\<rparr>],
      tree = 0, wd = 1\<rparr>"
  by code_simp

theorem wd_invariant_counterexample:
  "is_directory (mem foreign_child) (wd foreign_child)
   \<and> wd foreign_child \<noteq> tree foreign_child
   \<and> Parent (mem foreign_child ! wd foreign_child) = None
   \<and> \<not> parent_path (mem foreign_child) (wd foreign_child) (tree foreign_child)"
proof -
  have "\<not> parent_path (mem foreign_child) (wd foreign_child) (tree foreign_child)"
  proof
    assume "parent_path (mem foreign_child) (wd foreign_child) (tree foreign_child)"
    then have "parent_path (mem foreign_child) 1 0" by (simp add: foreign_child_eq)
    then show False
      by (cases rule: parent_path.cases) (auto simp: foreign_child_eq deref_def)
  qed
  then show ?thesis
    by (simp add: foreign_child_eq is_directory_def deref_def)
qed

lemma cd_mem: "mem (snd (ChangeDirectory s path)) = mem s"
  by (auto simp: ChangeDirectory_def split: sum.splits)

lemma List_state: "snd (List fuel s recursive) = s"
  by (simp add: List_def split: option.split blob.split)

lemma sound_wd:
  assumes "sound s"
  obtains d where "deref (mem s) (wd s) = Some (Directory d)"
  using assms by (auto simp: sound_iff is_directory_def split: option.splits blob.splits)

section \<open>Names\<close>

lemma names_grow:
  assumes "deref h w = Some (Directory d)"
    and "\<forall>a<length h. Name (h ! a) = [] \<longrightarrow> a = 0"
    and "Name new \<noteq> []"
  shows "\<forall>a<length ((h @ [new])[w := Directory (d\<lparr>d_children := cs\<rparr>)]).
           Name (((h @ [new])[w := Directory (d\<lparr>d_children := cs\<rparr>)]) ! a) = [] \<longrightarrow> a = 0"
proof (intro allI impI)
  fix a
  let ?h' = "(h @ [new])[w := Directory (d\<lparr>d_children := cs\<rparr>)]"
  assume a: "a < length ?h'" and n: "Name (?h' ! a) = []"
  from assms(1) have w: "w < length h" "h ! w = Directory d"
    by (auto simp: deref_def split: if_splits)
  show "a = 0"
  proof (cases "a < length h")
    case True
    with n assms(2) show ?thesis by (simp add: grown_nth [OF w True])
  next
    case False
    with a have "a = length h" by simp
    with n assms(3) w show ?thesis by (simp add: grown_new)
  qed
qed

lemma names_exec:
  assumes "sound s" "named c"
    and "\<forall>a<length (mem s). Name (mem s ! a) = [] \<longrightarrow> a = 0"
  shows "\<forall>a<length (mem (exec s c)). Name (mem (exec s c) ! a) = [] \<longrightarrow> a = 0"
proof -
  from assms(1) obtain d where d: "deref (mem s) (wd s) = Some (Directory d)"
    by (rule sound_wd)
  show ?thesis
  proof (cases c)
    case (CallCreateFile name content)
    let ?new = "File \<lparr>f_parent = Some (wd s), f_name = name, f_content = content, f_size = 0\<rparr>"
    have eq: "mem (exec s c) =
        (mem s @ [?new])[wd s := Directory (d\<lparr>d_children := d_children d @ [length (mem s)]\<rparr>)]"
      by (simp add: CallCreateFile CreateFile_mem [OF d])
    from CallCreateFile assms(2) have "Name ?new \<noteq> []" by simp
    then show ?thesis unfolding eq by (rule names_grow [OF d assms(3)])
  next
    case (CallCreateDirectory name children)
    let ?new = "Directory \<lparr>d_parent = Some (wd s), d_name = name, d_children = children\<rparr>"
    have eq: "mem (exec s c) =
        (mem s @ [?new])[wd s := Directory (d\<lparr>d_children := d_children d @ [length (mem s)]\<rparr>)]"
      by (simp add: CallCreateDirectory CreateDirectory_mem [OF d])
    from CallCreateDirectory assms(2) have "Name ?new \<noteq> []" by simp
    then show ?thesis unfolding eq by (rule names_grow [OF d assms(3)])
  next
    case (CallChangeDirectory path)
    have "mem (exec s c) = mem s" by (simp add: CallChangeDirectory cd_mem)
    with assms(3) show ?thesis by simp
  next
    case CallCurrentDirectory
    with assms(3) show ?thesis by (simp add: CurrentDirectory_def)
  next
    case (CallList recursive)
    with assms(3) show ?thesis by (simp add: List_state)
  qed
qed

lemma names_run:
  "\<forall>c\<in>set calls. named c \<Longrightarrow>
     \<forall>a<length (mem (run calls)). Name (mem (run calls) ! a) = [] \<longrightarrow> a = 0"
proof (induction calls rule: rev_induct)
  case Nil
  show ?case by (simp add: run_def NewFilesystem_def NewRoot_def)
next
  case (snoc c calls)
  then have ih: "\<forall>a<length (mem (run calls)). Name (mem (run calls) ! a) = [] \<longrightarrow> a = 0"
    and n: "named c" by simp_all
  show ?case unfolding run_snoc by (rule names_exec [OF sound_run n ih])
qed



text \<open>
  Nothing in the code rejects an empty name: after \<^verbatim>\<open>CreateFile("", [])\<close> the store holds a
  file that is not the root and whose name is empty.
\<close>

lemma demo_nameless_eq:
  "demo_nameless =
     \<lparr>mem = [Directory \<lparr>d_parent = None, d_name = [], d_children = [1, 2]\<rparr>,
             File \<lparr>f_parent = Some 0, f_name = [], f_content = [], f_size = 0\<rparr>,
             Directory \<lparr>d_parent = Some 0, d_name = [], d_children = []\<rparr>],
      tree = 0, wd = 0\<rparr>"
  by code_simp


section \<open>Paths made of slashes only\<close>

lemma linked_iff:
  "linked h \<longleftrightarrow>
     (\<forall>a d c. deref h a = Some (Directory d) \<and> c \<in> set (d_children d)
        \<longrightarrow> c < length h \<and> Parent (h ! c) = Some a)"
proof
  assume l: "linked h"
  show "\<forall>a d c. deref h a = Some (Directory d) \<and> c \<in> set (d_children d)
        \<longrightarrow> c < length h \<and> Parent (h ! c) = Some a"
  proof (intro allI impI)
    fix a d c
    assume "deref h a = Some (Directory d) \<and> c \<in> set (d_children d)"
    with linked_child [OF l, of a d c] show "c < length h \<and> Parent (h ! c) = Some a"
      by (auto simp: deref_def split: if_splits)
  qed
next
  assume r: "\<forall>a d c. deref h a = Some (Directory d) \<and> c \<in> set (d_children d)
        \<longrightarrow> c < length h \<and> Parent (h ! c) = Some a"
  have "case h ! a of File f \<Rightarrow> True
      | Directory d \<Rightarrow>
          list_all (\<lambda>c. case deref h c of Some b \<Rightarrow> Parent b = Some a | None \<Rightarrow> False)
            (d_children d)" if "a < length h" for a
  proof (cases "h ! a")
    case (File f)
    then show ?thesis by simp
  next
    case (Directory d)
    with that have "deref h a = Some (Directory d)" by (simp add: deref_def)
    with r have "\<forall>c\<in>set (d_children d). c < length h \<and> Parent (h ! c) = Some a" by blast
    then show ?thesis using Directory by (simp add: list_all_iff deref_def)
  qed
  then show "linked h" by (simp add: linked_def list_all_iff)
qed

lemma linked_grow:
  assumes "linked h" "deref h w = Some (Directory d)" "Parent new = Some w"
    and "\<forall>e. new = Directory e \<longrightarrow> d_children e = []"
  shows "linked ((h @ [new])[w := Directory (d\<lparr>d_children := d_children d @ [length h]\<rparr>)])"
proof -
  let ?d' = "d\<lparr>d_children := d_children d @ [length h]\<rparr>"
  let ?h' = "(h @ [new])[w := Directory ?d']"
  from assms(2) have w: "w < length h" "h ! w = Directory d"
    by (auto simp: deref_def split: if_splits)
  note old = assms(1) [unfolded linked_iff, rule_format]
  have "c < length ?h' \<and> Parent (?h' ! c) = Some a"
    if a: "deref ?h' a = Some (Directory e)" and c: "c \<in> set (d_children e)" for a e c
  proof -
    from a have al: "a < length ?h'" and e: "?h' ! a = Directory e"
      by (auto simp: deref_def split: if_splits)
    consider "a = length h" | "a = w" | "a < length h" "a \<noteq> w"
      using al by force
    then show ?thesis
    proof cases
      case 1
      with e w have "new = Directory e" by (simp add: grown_new)
      with assms(4) c show ?thesis by simp
    next
      case 2
      with e w have e': "e = ?d'" by simp
      show ?thesis
      proof (cases "c = length h")
        case True
        with w assms(3) 2 show ?thesis by (simp add: grown_new)
      next
        case False
        with c e' have "c \<in> set (d_children d)" by simp
        with old [of w d c] assms(2) have cl: "c < length h" and "Parent (h ! c) = Some w" by auto
        with 2 show ?thesis by (simp add: grown_nth [OF w cl])
      qed
    next
      case 3
      with e have "h ! a = Directory e" by (simp add: nth_append)
      with 3 have "deref h a = Some (Directory e)" by (simp add: deref_def)
      with old [of a e c] c have cl: "c < length h" and "Parent (h ! c) = Some a" by auto
      then show ?thesis by (simp add: grown_nth [OF w cl])
    qed
  qed
  then show ?thesis unfolding linked_iff by blast
qed

lemma linked_exec:
  assumes "sound s" "childless c" "linked (mem s)"
  shows "linked (mem (exec s c))"
proof -
  from assms(1) obtain d where d: "deref (mem s) (wd s) = Some (Directory d)"
    by (rule sound_wd)
  show ?thesis
  proof (cases c)
    case (CallCreateFile name content)
    let ?new = "File \<lparr>f_parent = Some (wd s), f_name = name, f_content = content, f_size = 0\<rparr>"
    have eq: "mem (exec s c) =
        (mem s @ [?new])[wd s := Directory (d\<lparr>d_children := d_children d @ [length (mem s)]\<rparr>)]"
      by (simp add: CallCreateFile CreateFile_mem [OF d])
    show ?thesis unfolding eq by (rule linked_grow [OF assms(3) d]) simp_all
  next
    case (CallCreateDirectory name children)
    let ?new = "Directory \<lparr>d_parent = Some (wd s), d_name = name, d_children = children\<rparr>"
    have eq: "mem (exec s c) =
        (mem s @ [?new])[wd s := Directory (d\<lparr>d_children := d_children d @ [length (mem s)]\<rparr>)]"
      by (simp add: CallCreateDirectory CreateDirectory_mem [OF d])
    from CallCreateDirectory assms(2) have "children = []" by simp
    then show ?thesis unfolding eq by (intro linked_grow [OF assms(3) d]) simp_all
  next
    case (CallChangeDirectory path)
    have "mem (exec s c) = mem s" by (simp add: CallChangeDirectory cd_mem)
    with assms(3) show ?thesis by simp
  next
    case CallCurrentDirectory
    with assms(3) show ?thesis by (simp add: CurrentDirectory_def)
  next
    case (CallList recursive)
    with assms(3) show ?thesis by (simp add: List_state)
  qed
qed

lemma linked_run: "\<forall>c\<in>set calls. childless c \<Longrightarrow> linked (mem (run calls))"
proof (induction calls rule: rev_induct)
  case Nil
  show ?case by (simp add: run_def NewFilesystem_def NewRoot_def linked_def)
next
  case (snoc c calls)
  then have ih: "linked (mem (run calls))" and n: "childless c" by simp_all
  show ?case unfolding run_snoc by (rule linked_exec [OF sound_run n ih])
qed

text \<open>The state-level fact: the empty segment fails where the directory that the resolution
  starts from has no Directory child with the empty name.\<close>

lemma empty_segment_fails:
  assumes "Trim path ''/'' = []" "path \<noteq> ''/''"
    and "deref (mem s) (if HasPrefix path ''/'' then tree s else wd s) = Some (Directory d)"
    and "\<forall>c\<in>set (d_children d). \<not> is_dir_named (mem s) [] c"
  shows "ChangeDirectory s path = (Some (NotExist path), s)"
proof -
  from assms(4) have "find_dir (mem s) (d_children d) [] = None"
    by (simp add: find_dir_None)
  with assms(1,2,3) show ?thesis
    by (simp add: ChangeDirectory_def)
qed

text \<open>
  Claim C9, as amended. In every state reached by calls that pass non-empty names and no
  child lists, \<^verbatim>\<open>ChangeDirectory\<close> with a path whose stripped remainder is empty and which is
  not exactly \<^verbatim>\<open>/\<close> (the empty path, \<^verbatim>\<open>//\<close>, \<^verbatim>\<open>///\<close>, ...) splits into the one empty segment,
  finds no Directory child of that name, and returns the not-found error; the state stays as
  it was.
\<close>

theorem all_slash_path_fails:
  assumes "\<forall>c\<in>set calls. named c \<and> childless c"
    and "Trim path ''/'' = []" and "path \<noteq> ''/''"
  shows "Split (Trim path ''/'') (CHR ''/'') = [[]]
    \<and> ChangeDirectory (run calls) path = (Some (NotExist path), run calls)"
proof -
  let ?s = "run calls"
  let ?start = "if HasPrefix path ''/'' then tree ?s else wd ?s"
  have s: "sound ?s" by (rule sound_run)
  then have "is_directory (mem ?s) ?start"
    by (auto simp: sound_iff is_root_def is_directory_def split: option.splits blob.splits)
  then obtain d where d: "deref (mem ?s) ?start = Some (Directory d)"
    by (auto simp: is_directory_def split: option.splits blob.splits)
  from assms(1) have l: "linked (mem ?s)" by (intro linked_run) simp
  from assms(1) have n: "\<forall>a<length (mem ?s). Name (mem ?s ! a) = [] \<longrightarrow> a = 0"
    by (intro names_run) simp
  from s have root: "Parent (mem ?s ! 0) = None"
    by (auto simp: sound_iff is_root_def deref_def split: if_splits blob.splits)
  have "\<not> is_dir_named (mem ?s) [] c" if c: "c \<in> set (d_children d)" for c
  proof
    assume m: "is_dir_named (mem ?s) [] c"
    from l [unfolded linked_iff, rule_format, of ?start d c] d c
    have cl: "c < length (mem ?s)" and p: "Parent (mem ?s ! c) = Some ?start" by auto
    from m cl have "Name (mem ?s ! c) = []"
      by (auto simp: is_dir_named_def deref_def split: blob.splits)
    with n cl have "c = 0" by simp
    with p root show False by simp
  qed
  then have "ChangeDirectory ?s path = (Some (NotExist path), ?s)"
    by (intro empty_segment_fails [OF assms(2,3) d]) simp
  then show ?thesis using assms(2) by simp
qed

theorem all_slash_path_fails_witness:
  "ChangeDirectory demo_shadow ''//'' = (Some (NotExist ''//''), demo_shadow)
   \<and> ChangeDirectory demo_shadow [] = (Some (NotExist []), demo_shadow)"
proof -
  let ?calls = "[CallCreateFile ''a'' [], CallCreateDirectory ''a'' [],
      CallChangeDirectory ''a'', CallCreateDirectory ''b'' [], CallChangeDirectory ''/'']"
  have h: "\<forall>c\<in>set ?calls. named c \<and> childless c" by simp
  have r: "run ?calls = demo_shadow" by (simp add: demo_shadow_def)
  have t1: "Trim ''//'' ''/'' = []" and t2: "Trim [] ''/'' = []" by (simp_all add: Trim_def)
  have n1: "''//'' \<noteq> ''/''" and n2: "[] \<noteq> ''/''" by simp_all
  from all_slash_path_fails [OF h t1 n1] all_slash_path_fails [OF h t2 n2]
  show ?thesis unfolding r by simp
qed

text \<open>
  A directory may be created with the empty name; the empty segment then matches it and
  \<^verbatim>\<open>cd //\<close> succeeds, moving into that directory.
\<close>

theorem all_slash_path_fails_counterexample:
  "Trim ''//'' ''/'' = [] \<and> ''//'' \<noteq> ''/''
   \<and> ChangeDirectory demo_nameless ''//'' = (None, demo_nameless\<lparr>wd := 2\<rparr>)"
  by (simp add: demo_nameless_eq Trim_def ChangeDirectory_def HasPrefix_def deref_def)

section \<open>From a directory to its path and back\<close>

lemma Split_piece: "sep \<notin> set w \<Longrightarrow> Split (w @ sep # rest) sep = w # Split rest sep"
  by (induction w) auto

lemma Split_single: "sep \<notin> set w \<Longrightarrow> Split w sep = [w]"
  by (induction w) auto

lemma Split_joined:
  "\<forall>seg\<in>set (s1 # rest). sep \<notin> set seg \<Longrightarrow>
     Split (s1 @ concat (map (\<lambda>seg. sep # seg) rest)) sep = s1 # rest"
proof (induction rest arbitrary: s1)
  case Nil
  then show ?case by (simp add: Split_single)
next
  case (Cons r rest)
  then have "Split (r @ concat (map (\<lambda>seg. sep # seg) rest)) sep = r # rest" by simp
  moreover from Cons.prems have "sep \<notin> set s1" by simp
  ultimately show ?case by (simp add: Split_piece)
qed

lemma concat_slashes:
  "concat (map (\<lambda>seg. seg @ [sep]) (s1 # rest)) = s1 @ concat (map (\<lambda>seg. sep # seg) rest) @ [sep]"
  by (induction rest arbitrary: s1) simp_all

lemma joined_last:
  "\<forall>seg\<in>set (s1 # rest). seg \<noteq> [] \<and> sep \<notin> set seg \<Longrightarrow>
     last (s1 @ concat (map (\<lambda>seg. sep # seg) rest)) \<noteq> sep"
proof (induction rest arbitrary: s1)
  case Nil
  then have "last s1 \<in> set s1" by simp
  with Nil show ?case by auto
next
  case (Cons r rest)
  then have "last (r @ concat (map (\<lambda>seg. sep # seg) rest)) \<noteq> sep" by simp
  moreover from Cons.prems have "r \<noteq> []" by simp
  ultimately show ?case by simp
qed

lemma Trim_slashes:
  assumes "J \<noteq> []" "hd J \<noteq> CHR ''/''" "last J \<noteq> CHR ''/''"
  shows "Trim (CHR ''/'' # J @ ''/'') ''/'' = J"
proof -
  from assms(1,2) have a: "dropWhile (\<lambda>c. c = CHR ''/'') (J @ ''/'') = J @ ''/''"
    by (cases J) auto
  from assms(1,3) have b: "dropWhile (\<lambda>c. c = CHR ''/'') (rev J) = rev J"
    by (cases J rule: rev_cases) auto
  show ?thesis by (simp add: Trim_def a b)
qed

lemma render_parts:
  assumes "segs \<noteq> []" "\<forall>seg\<in>set segs. plain seg"
  shows "Split (Trim (render segs) ''/'') (CHR ''/'') = segs"
    and "render segs \<noteq> ''/''" and "HasPrefix (render segs) ''/''"
proof -
  from assms(1) obtain s1 rest where segs: "segs = s1 # rest" by (cases segs) auto
  let ?J = "s1 @ concat (map (\<lambda>seg. CHR ''/'' # seg) rest)"
  from assms(2) segs have p: "\<forall>seg\<in>set (s1 # rest). seg \<noteq> [] \<and> CHR ''/'' \<notin> set seg"
    by (auto simp: plain_def)
  have r: "render segs = CHR ''/'' # ?J @ ''/''"
    using concat_slashes [of "CHR ''/''" s1 rest] by (simp add: render_def segs)
  from p have s1: "s1 \<noteq> []" "CHR ''/'' \<notin> set s1" by auto
  from hd_in_set [OF s1(1)] s1(2) have "hd s1 \<noteq> CHR ''/''" by (metis)
  with s1 have hd: "hd ?J \<noteq> CHR ''/''" by simp
  from s1 have ne: "?J \<noteq> []" by simp
  have "Trim (render segs) ''/'' = ?J"
    unfolding r using ne hd joined_last [OF p] by (rule Trim_slashes)
  moreover from p have "Split ?J (CHR ''/'') = s1 # rest"
    by (intro Split_joined) auto
  ultimately show "Split (Trim (render segs) ''/'') (CHR ''/'') = segs" by (simp add: segs)
  from ne show "render segs \<noteq> ''/''" unfolding r by simp
  show "HasPrefix (render segs) ''/''" unfolding r by (simp add: HasPrefix_def)
qed

lemma canonical_Nil: "canonical h root a [] \<Longrightarrow> a = root"
  by (cases rule: canonical.cases) auto

lemma canonical_plain: "canonical h root a segs \<Longrightarrow> \<forall>seg\<in>set segs. plain seg"
  by (induction rule: canonical.induct) auto

lemma canonical_root_chain: "canonical h root a segs \<Longrightarrow> is_root h root \<Longrightarrow> root_chain h a segs"
  by (induction rule: canonical.induct) (auto intro: root_chain.intros)

lemma canonical_walk: "canonical h root a segs \<Longrightarrow> walk h path root segs = Inr a"
proof (induction rule: canonical.induct)
  case canonical_root
  show ?case by simp
next
  case (canonical_child p segs dp a d)
  from canonical_child.hyps(5) have "d_name d \<noteq> ''.''" "d_name d \<noteq> ''..''"
    by (auto simp: plain_def)
  with canonical_child show ?case by (simp add: walk_append)
qed

text \<open>
  Claim C3, as amended. Let \<open>d\<close> be a Directory such that every directory on its parent
  chain below the root has a plain name (not empty, without a slash, neither \<^verbatim>\<open>.\<close> nor \<^verbatim>\<open>..\<close>)
  and is the first Directory child of its parent with that name. Then the loop of
  \<^verbatim>\<open>CurrentDirectory\<close>, started at \<open>d\<close>, returns the path of \<open>d\<close>, and \<^verbatim>\<open>ChangeDirectory\<close> with
  exactly this string succeeds and sets \<open>wd\<close> to \<open>d\<close>, wherever \<open>wd\<close> was.
\<close>

theorem path_round_trip:
  assumes "is_root (mem s) (tree s)" and "canonical (mem s) (tree s) d segs"
  shows "CurrentDirectory (s\<lparr>wd := d\<rparr>) = (Some (Inr (render segs)), s\<lparr>wd := d\<rparr>)
    \<and> ChangeDirectory s (render segs) = (None, s\<lparr>wd := d\<rparr>)"
proof -
  from canonical_root_chain [OF assms(2,1)]
  have "CurrentDirectory_loop (mem s) d [] = Some (Inr (render segs))"
    by (simp add: loop_root_chain)
  then have a: "CurrentDirectory (s\<lparr>wd := d\<rparr>) = (Some (Inr (render segs)), s\<lparr>wd := d\<rparr>)"
    by (simp add: CurrentDirectory_def)
  have b: "ChangeDirectory s (render segs) = (None, s\<lparr>wd := d\<rparr>)"
  proof (cases "segs = []")
    case True
    with assms(2) have "d = tree s" by (simp add: canonical_Nil)
    with True show ?thesis by (simp add: ChangeDirectory_def render_def)
  next
    case False
    note parts = render_parts [OF False canonical_plain [OF assms(2)]]
    from canonical_walk [OF assms(2)] show ?thesis
      by (simp add: ChangeDirectory_def parts)
  qed
  from a b show ?thesis by simp
qed

theorem path_round_trip_witness:
  "CurrentDirectory (demo_shadow\<lparr>wd := 3\<rparr>) = (Some (Inr ''/a/b/''), demo_shadow\<lparr>wd := 3\<rparr>)
   \<and> ChangeDirectory demo_shadow ''/a/b/'' = (None, demo_shadow\<lparr>wd := 3\<rparr>)"
proof -
  let ?h = "mem demo_shadow"
  have r: "is_root ?h (tree demo_shadow)"
    by (simp add: demo_shadow_eq is_root_def deref_def)
  have c0: "canonical ?h 0 0 []" by (rule canonical_root)
  have c2: "canonical ?h 0 2 ([] @ [d_name \<lparr>d_parent = Some 0, d_name = ''a'', d_children = [3]\<rparr>])"
    by (rule canonical_child [OF c0, where dp = "\<lparr>d_parent = None, d_name = [], d_children = [1, 2]\<rparr>"])
       (simp_all add: demo_shadow_eq deref_def plain_def)
  have c3: "canonical ?h 0 3 ([''a''] @ [d_name \<lparr>d_parent = Some 2, d_name = ''b'', d_children = []\<rparr>])"
    by (rule canonical_child [OF _ _, where dp = "\<lparr>d_parent = Some 0, d_name = ''a'', d_children = [3]\<rparr>"])
       (use c2 in \<open>simp_all add: demo_shadow_eq deref_def plain_def\<close>)
  then have c: "canonical ?h (tree demo_shadow) 3 [''a'', ''b'']"
    by (simp add: demo_shadow_eq)
  from path_round_trip [OF r c] show ?thesis by (simp add: render_def)
qed

text \<open>
  Without the condition the round trip fails: of two directories named \<^verbatim>\<open>a\<close> under the
  root, the second has the path \<^verbatim>\<open>/a/\<close>, and \<^verbatim>\<open>ChangeDirectory("/a/")\<close> leads to the first.
\<close>

lemma demo_twins_eq:
  "demo_twins =
     \<lparr>mem = [Directory \<lparr>d_parent = None, d_name = [], d_children = [1, 2]\<rparr>,
             Directory \<lparr>d_parent = Some 0, d_name = ''a'', d_children = []\<rparr>,
             Directory \<lparr>d_parent = Some 0, d_name = ''a'', d_children = []\<rparr>],
      tree = 0, wd = 0\<rparr>"
  by code_simp

theorem path_round_trip_counterexample:
  "descends (mem demo_twins) (tree demo_twins) [''a''] 2
   \<and> CurrentDirectory (demo_twins\<lparr>wd := 2\<rparr>) = (Some (Inr ''/a/''), demo_twins\<lparr>wd := 2\<rparr>)
   \<and> ChangeDirectory demo_twins ''/a/'' = (None, demo_twins\<lparr>wd := 1\<rparr>)
   \<and> demo_twins\<lparr>wd := 1\<rparr> \<noteq> demo_twins\<lparr>wd := 2\<rparr>"
proof -
  have "descends (mem demo_twins) 0 [''a''] 2"
    by (rule descends.down [OF _ _ _ descends.stay,
          where d = "\<lparr>d_parent = None, d_name = [], d_children = [1, 2]\<rparr>"])
       (simp_all add: demo_twins_eq deref_def is_dir_named_def)
  moreover have "CurrentDirectory (demo_twins\<lparr>wd := 2\<rparr>) = (Some (Inr ''/a/''), demo_twins\<lparr>wd := 2\<rparr>)"
    by code_simp
  moreover have "ChangeDirectory demo_twins ''/a/'' = (None, demo_twins\<lparr>wd := 1\<rparr>)"
    by code_simp
  moreover have "demo_twins\<lparr>wd := 1\<rparr> \<noteq> demo_twins\<lparr>wd := 2\<rparr>"
    by (simp add: demo_twins_eq)
  ultimately show ?thesis by (simp add: demo_twins_eq)
qed

section \<open>The printed path\<close>

text \<open>
  Claim C7. \<^verbatim>\<open>CurrentDirectory\<close> starts at \<open>wd\<close> and prepends name and slash while it moves up
  the parent links, stopping at the directory without a parent. So when the names on the
  parent chain of \<open>wd\<close>, from below the root down to \<open>wd\<close>, are \<open>seg1 .. segk\<close>, it returns
  and prints \<^verbatim>\<open>/seg1/.../segk/\<close>, which always ends in a slash. This is the case for the
  directory reached from the root by descending through children named \<open>seg1 .. segk\<close>, in
  a store where every child has its directory as parent, and so in every state reached by
  calls that pass no child lists. At the root it prints \<^verbatim>\<open>/\<close>. The state after the call is the
  state before it.
\<close>

theorem working_path:
  "(root_chain (mem s) (wd s) segs \<longrightarrow> CurrentDirectory s = (Some (Inr (render segs)), s))
   \<and> (linked (mem s) \<and> is_root (mem s) (tree s) \<and> descends (mem s) (tree s) segs (wd s)
        \<longrightarrow> CurrentDirectory s = (Some (Inr (render segs)), s))
   \<and> ((\<forall>c\<in>set calls. childless c)
        \<and> descends (mem (run calls)) (tree (run calls)) segs (wd (run calls))
        \<longrightarrow> CurrentDirectory (run calls) = (Some (Inr (render segs)), run calls))
   \<and> (is_root (mem s) (wd s) \<longrightarrow> CurrentDirectory s = (Some (Inr ''/''), s))
   \<and> snd (CurrentDirectory s) = s
   \<and> last (render segs) = CHR ''/''
   \<and> render [seg1, seg2] = ''/'' @ seg1 @ ''/'' @ seg2 @ ''/''"
proof -
  have a: "CurrentDirectory s = (Some (Inr (render segs)), s)"
    if "root_chain (mem s) (wd s) segs" for s :: filesystem and segs
    using loop_root_chain [OF that, of "[]"] by (simp add: CurrentDirectory_def)
  have b: "CurrentDirectory s = (Some (Inr (render segs)), s)"
    if "linked (mem s) \<and> is_root (mem s) (tree s) \<and> descends (mem s) (tree s) segs (wd s)"
    for s :: filesystem
  proof -
    from that have "root_chain (mem s) (tree s) []" by (auto intro: root_chain.at_root)
    with that have "root_chain (mem s) (wd s) ([] @ segs)"
      by (intro descends_root_chain) auto
    then show ?thesis using a by simp
  qed
  have r: "CurrentDirectory (run calls) = (Some (Inr (render segs)), run calls)"
    if "(\<forall>c\<in>set calls. childless c)
        \<and> descends (mem (run calls)) (tree (run calls)) segs (wd (run calls))"
  proof -
    from that have "linked (mem (run calls))" by (intro linked_run) simp
    moreover from sound_run [of calls] have "is_root (mem (run calls)) (tree (run calls))"
      by (simp add: sound_iff)
    ultimately show ?thesis using that by (intro b) simp
  qed
  have c: "CurrentDirectory s = (Some (Inr ''/''), s)" if "is_root (mem s) (wd s)"
    using a [OF root_chain.at_root [OF that]] by (simp add: render_def)
  have d: "snd (CurrentDirectory s) = s" by (simp add: CurrentDirectory_def)
  have e: "last (render segs) = CHR ''/''"
    by (induction segs rule: rev_induct) (simp_all add: render_def)
  have f: "render [seg1, seg2] = ''/'' @ seg1 @ ''/'' @ seg2 @ ''/''"
    by (simp add: render_def)
  from a b r c d e f show ?thesis by blast
qed

lemma demo_readme_eq:
  "demo_readme =
     \<lparr>mem = [Directory \<lparr>d_parent = None, d_name = [], d_children = [1]\<rparr>,
             Directory \<lparr>d_parent = Some 0, d_name = ''quz'', d_children = [2]\<rparr>,
             Directory \<lparr>d_parent = Some 1, d_name = ''foo'', d_children = [3]\<rparr>,
             File \<lparr>f_parent = Some 2, f_name = ''test'', f_content = [], f_size = 0\<rparr>],
      tree = 0, wd = 2\<rparr>"
  by code_simp

theorem working_path_witness:
  "CurrentDirectory demo_readme = (Some (Inr ''/quz/foo/''), demo_readme)
   \<and> CurrentDirectory demo_shadow = (Some (Inr ''/''), demo_shadow)"
proof -
  let ?calls = "[CallCreateDirectory ''quz'' [], CallChangeDirectory ''quz'',
      CallCreateDirectory ''foo'' [], CallChangeDirectory ''foo'', CallCreateFile ''test'' []]"
  have run: "run ?calls = demo_readme" by (simp add: demo_readme_def)
  have d2: "descends (mem demo_readme) 2 [] 2" by (rule descends.stay)
  have d1: "descends (mem demo_readme) 1 [''foo''] 2"
    by (rule descends.down [OF _ _ _ d2,
          where d = "\<lparr>d_parent = Some 0, d_name = ''quz'', d_children = [2]\<rparr>"])
       (simp_all add: demo_readme_eq deref_def is_dir_named_def)
  have d0: "descends (mem demo_readme) 0 [''quz'', ''foo''] 2"
    by (rule descends.down [OF _ _ _ d1,
          where d = "\<lparr>d_parent = None, d_name = [], d_children = [1]\<rparr>"])
       (simp_all add: demo_readme_eq deref_def is_dir_named_def)
  have h: "(\<forall>c\<in>set ?calls. childless c)
        \<and> descends (mem (run ?calls)) (tree (run ?calls)) [''quz'', ''foo''] (wd (run ?calls))"
    unfolding run using d0 by (simp add: demo_readme_eq)
  have h0: "is_root (mem demo_shadow) (wd demo_shadow)"
    by (simp add: demo_shadow_eq is_root_def deref_def)
  note a = working_path [where calls = ?calls and segs = "[''quz'', ''foo'']",
      THEN conjunct2, THEN conjunct2,
      THEN conjunct1, rule_format, OF h, unfolded run]
  note b = working_path [of demo_shadow, THEN conjunct2, THEN conjunct2, THEN conjunct2,
      THEN conjunct1, rule_format, OF h0]
  from a b show ?thesis by (simp add: render_def)
qed

section \<open>The listing after a file is created\<close>

text \<open>
  Claim C8. \<^verbatim>\<open>CreateFile(n, c)\<close> succeeds, and the listing without recursion that follows
  shows the header, the rows of the children that were there, and last a row of kind
  \<^verbatim>\<open>file\<close> with the name \<open>n\<close> and the size \<open>len(c) / 1024\<close> (integer division) followed by
  \<^verbatim>\<open>kb\<close>; a payload under 1024 bytes shows \<^verbatim>\<open>0kb\<close>. This holds in every state whose working
  directory and its children are objects of the store, and so in every state reached by
  calls that pass no child lists.
\<close>

theorem created_file_listed:
  "(deref (mem s) (wd s) = Some (Directory d)
      \<and> (\<forall>child\<in>set (d_children d). child < length (mem s))
      \<longrightarrow> fst (CreateFile s n c) = None
        \<and> fst (List fuel (snd (CreateFile s n c)) False) =
            Some (Inr ((''TYPE'', ''SIZE'', ''NAME'')
                        # map (listing_row (mem (snd (CreateFile s n c)))) (d_children d)
                        @ [(''file'', decimal (length c div 1024) @ ''kb'', n)])))
   \<and> ((\<forall>call\<in>set calls. childless call)
      \<longrightarrow> fst (CreateFile (run calls) n c) = None
        \<and> (\<exists>old. fst (List fuel (snd (CreateFile (run calls) n c)) False) =
              Some (Inr ((''TYPE'', ''SIZE'', ''NAME'')
                          # old @ [(''file'', decimal (length c div 1024) @ ''kb'', n)]))))
   \<and> (length c < 1024 \<longrightarrow> decimal (length c div 1024) @ ''kb'' = ''0kb'')"
proof (intro conjI impI)
  assume a: "deref (mem s) (wd s) = Some (Directory d)
      \<and> (\<forall>child\<in>set (d_children d). child < length (mem s))"
  then have a1: "deref (mem s) (wd s) = Some (Directory d)"
    and a2: "\<forall>child\<in>set (d_children d). child < length (mem s)" by simp_all
  from listing_after_create [OF a1 a2] show "fst (CreateFile s n c) = None" by (rule conjunct1)
  from listing_after_create [OF a1 a2]
  show "fst (List fuel (snd (CreateFile s n c)) False) =
            Some (Inr ((''TYPE'', ''SIZE'', ''NAME'')
                        # map (listing_row (mem (snd (CreateFile s n c)))) (d_children d)
                        @ [(''file'', decimal (length c div 1024) @ ''kb'', n)]))"
    by (rule conjunct2 [THEN conjunct1])
next
  assume r: "\<forall>call\<in>set calls. childless call"
  let ?s = "run calls"
  from sound_run [of calls] obtain d where d: "deref (mem ?s) (wd ?s) = Some (Directory d)"
    by (rule sound_wd)
  from r have "linked (mem ?s)" by (rule linked_run)
  with d have v: "\<forall>child\<in>set (d_children d). child < length (mem ?s)"
    by (auto simp: linked_iff)
  from listing_after_create [OF d v] show "fst (CreateFile ?s n c) = None" by (rule conjunct1)
  from listing_after_create [OF d v, of n c fuel]
  show "\<exists>old. fst (List fuel (snd (CreateFile ?s n c)) False) =
              Some (Inr ((''TYPE'', ''SIZE'', ''NAME'')
                          # old @ [(''file'', decimal (length c div 1024) @ ''kb'', n)]))"
    by blast
next
  assume "length c < 1024"
  then show "decimal (length c div 1024) @ ''kb'' = ''0kb''" by (simp add: decimal_0)
qed

theorem created_file_listed_witness:
  "fst (List 0 (snd (CreateFile (demo_shadow\<lparr>wd := 2\<rparr>) ''notes'' (replicate 2050 0))) False) =
     Some (Inr [(''TYPE'', ''SIZE'', ''NAME''), (''dir'', ''-'', ''b''), (''file'', ''2kb'', ''notes'')])
   \<and> fst (CreateFile (run [CallCreateDirectory ''quz'' [], CallChangeDirectory ''quz'']) ''test'' []) = None
   \<and> decimal (length ([] :: byte list) div 1024) @ ''kb'' = ''0kb''"
proof -
  let ?s = "demo_shadow\<lparr>wd := 2\<rparr>"
  let ?d = "\<lparr>d_parent = Some 0, d_name = ''a'', d_children = [3]\<rparr>"
  let ?calls = "[CallCreateDirectory ''quz'' [], CallChangeDirectory ''quz'']"
  have h: "deref (mem ?s) (wd ?s) = Some (Directory ?d)
      \<and> (\<forall>child\<in>set (d_children ?d). child < length (mem ?s))"
    by (simp add: demo_shadow_eq deref_def)
  have row: "listing_row (mem (snd (CreateFile ?s ''notes'' (replicate 2050 0)))) 3 = (''dir'', ''-'', ''b'')"
    by code_simp
  have size: "decimal (length (replicate 2050 (0::byte)) div 1024) = ''2''"
    by code_simp
  have r: "\<forall>call\<in>set ?calls. childless call" by simp
  have small: "length ([] :: byte list) < 1024" by simp
  note a = created_file_listed [where s = ?s and d = ?d and n = "''notes''"
      and c = "replicate 2050 0" and fuel = 0, THEN conjunct1, rule_format, OF h, THEN conjunct2]
  note b = created_file_listed [where calls = ?calls and n = "''test''" and c = "[]",
      THEN conjunct2, THEN conjunct1, THEN mp, OF r, THEN conjunct1]
  note c = created_file_listed [where c = "[] :: byte list", THEN conjunct2, THEN conjunct2,
      rule_format, OF small]
  from a b c row size show ?thesis by simp
qed

end
